theory Spec2Isabelle
  imports Complex_Main "HOL-Library.Finite_Map" "HOL-Library.Sublist"
    "HOL-Library.List_Lexorder" "HOL-Library.Char_ord"
begin

section \<open>Strings\<close>

text \<open>
  A Go string is a sequence of bytes: \<^typ>\<open>string\<close>, one \<^typ>\<open>char\<close> per byte, so that
  \<open>len\<close> is \<^const>\<open>length\<close> and slicing is \<^const>\<open>take\<close> and \<^const>\<open>drop\<close>. A rune is a
  code point, a natural number. \<open>for _, r := range s\<close> decodes UTF-8 as
  \<open>utf8.DecodeRuneInString\<close> does: a byte that does not start a well-formed sequence is
  read as U+FFFD and the loop moves on by one byte. \<open>string(r)\<close> and \<open>WriteRune\<close> encode a
  rune as \<open>utf8.AppendRune\<close> does.
\<close>

definition RuneError :: nat where
  "RuneError = 65533"

definition inRange :: "nat \<Rightarrow> nat \<Rightarrow> char \<Rightarrow> bool" where
  "inRange lo hi b = (lo \<le> of_char b \<and> (of_char b :: nat) \<le> hi)"

text \<open>The six payload bits of a continuation byte.\<close>

definition cont :: "char \<Rightarrow> nat" where
  "cont b = of_char b - 128"

text \<open>\<open>utf8.DecodeRuneInString\<close>: the rune at the head of the string and its width.\<close>

fun DecodeRune :: "string \<Rightarrow> nat \<times> nat" where
  "DecodeRune [] = (RuneError, 0)"
| "DecodeRune (b0 # rest) =
     (let n0 = (of_char b0 :: nat) in
      if n0 < 128 then (n0, 1)
      else if n0 < 194 then (RuneError, 1)
      else if n0 < 224 then
        (case rest of
           b1 # _ \<Rightarrow>
             if inRange 128 191 b1 then ((n0 - 192) * 64 + cont b1, 2) else (RuneError, 1)
         | _ \<Rightarrow> (RuneError, 1))
      else if n0 < 240 then
        (case rest of
           b1 # b2 # _ \<Rightarrow>
             if inRange (if n0 = 224 then 160 else 128) (if n0 = 237 then 159 else 191) b1
                \<and> inRange 128 191 b2
             then ((n0 - 224) * 4096 + cont b1 * 64 + cont b2, 3) else (RuneError, 1)
         | _ \<Rightarrow> (RuneError, 1))
      else if n0 < 245 then
        (case rest of
           b1 # b2 # b3 # _ \<Rightarrow>
             if inRange (if n0 = 240 then 144 else 128) (if n0 = 244 then 143 else 191) b1
                \<and> inRange 128 191 b2 \<and> inRange 128 191 b3
             then ((n0 - 240) * 262144 + cont b1 * 4096 + cont b2 * 64 + cont b3, 4)
             else (RuneError, 1)
         | _ \<Rightarrow> (RuneError, 1))
      else (RuneError, 1))"

text \<open>
  The runes that \<open>range\<close> yields. The width of a rune decoded from a non-empty string is
  at least one, so dropping \<open>n - 1\<close> bytes after the first is dropping \<open>n\<close> bytes.
\<close>

fun runes :: "string \<Rightarrow> nat list" where
  "runes [] = []"
| "runes (b0 # rest) = (case DecodeRune (b0 # rest) of (r, n) \<Rightarrow> r # runes (drop (n - 1) rest))"

text \<open>The same loop, keeping with each rune the bytes it was read from.\<close>

fun runeChunks :: "string \<Rightarrow> (nat \<times> string) list" where
  "runeChunks [] = []"
| "runeChunks (b0 # rest) =
     (case DecodeRune (b0 # rest) of
        (r, n) \<Rightarrow> (r, take n (b0 # rest)) # runeChunks (drop (n - 1) rest))"

definition EncodeRune :: "nat \<Rightarrow> string" where
  "EncodeRune r =
     (if r \<le> 127 then [char_of r]
      else if r \<le> 2047 then [char_of (192 + r div 64), char_of (128 + r mod 64)]
      else if r > 1114111 \<or> (55296 \<le> r \<and> r \<le> 57343) then [CHR 0xEF, CHR 0xBF, CHR 0xBD]
      else if r \<le> 65535 then
        [char_of (224 + r div 4096), char_of (128 + (r div 64) mod 64), char_of (128 + r mod 64)]
      else
        [char_of (240 + r div 262144), char_of (128 + (r div 4096) mod 64),
         char_of (128 + (r div 64) mod 64), char_of (128 + r mod 64)])"

text \<open>\<open>unicode.IsSpace\<close>: the code points with the Unicode property White_Space.\<close>

definition IsSpace :: "nat \<Rightarrow> bool" where
  "IsSpace r =
     ((9 \<le> r \<and> r \<le> 13) \<or> r = 32 \<or> r = 133 \<or> r = 160 \<or> r = 5760 \<or> (8192 \<le> r \<and> r \<le> 8202)
      \<or> r = 8232 \<or> r = 8233 \<or> r = 8239 \<or> r = 8287 \<or> r = 12288)"

text \<open>
  \<open>unicode.ToLower\<close> is arithmetic on ASCII and a lookup in the case tables of the Go
  library above it. Those tables are not part of the package; they are the parameter
  \<open>caseTable\<close> of everything that lowercases.
\<close>

definition unicodeToLower :: "(nat \<Rightarrow> nat) \<Rightarrow> nat \<Rightarrow> nat" where
  "unicodeToLower caseTable r =
     (if r \<le> 127 then (if 65 \<le> r \<and> r \<le> 90 then r + 32 else r) else caseTable r)"

definition lowerByte :: "char \<Rightarrow> char" where
  "lowerByte b =
     (if 65 \<le> (of_char b :: nat) \<and> (of_char b :: nat) \<le> 90 then char_of (of_char b + 32 :: nat)
      else b)"

text \<open>
  \<open>strings.ToLower\<close>: bytewise on a string of ASCII bytes, and otherwise
  \<open>strings.Map(unicode.ToLower, s)\<close>, which writes the image of every rune of \<open>s\<close>.
\<close>

definition ToLower :: "(nat \<Rightarrow> nat) \<Rightarrow> string \<Rightarrow> string" where
  "ToLower caseTable s =
     (if list_all (\<lambda>b. (of_char b :: nat) < 128) s then map lowerByte s
      else concat (map (\<lambda>r. EncodeRune (unicodeToLower caseTable r)) (runes s)))"

text \<open>\<open>strings.TrimSpace\<close>: the string without its leading and trailing white-space runes.\<close>

definition TrimSpace :: "string \<Rightarrow> string" where
  "TrimSpace s =
     concat (map snd
       (rev (dropWhile (\<lambda>c. IsSpace (fst c)) (rev (dropWhile (\<lambda>c. IsSpace (fst c)) (runeChunks s))))))"


section \<open>Tokenizer\<close>

definition maxWordLengthToIndex :: nat where
  "maxWordLengthToIndex = 80"

text \<open>
  The body shared by the two places where \<open>tokenize\<close> closes a word: trim, lowercase,
  and append the token unless it is empty or longer than the limit.
\<close>

definition emitWord :: "(nat \<Rightarrow> nat) \<Rightarrow> string \<Rightarrow> string list \<Rightarrow> string list" where
  "emitWord caseTable word tokens =
     (let token = ToLower caseTable (TrimSpace word) in
      if token \<noteq> [] \<and> length token \<le> maxWordLengthToIndex then tokens @ [token] else tokens)"

text \<open>
  The \<open>for _, r := range text\<close> loop over the runes of the text, with the token list and
  the bytes of the word builder as state. The hyphen is the rune 45.
\<close>

fun tokenizeLoop ::
  "(nat \<Rightarrow> nat) \<Rightarrow> nat list \<Rightarrow> string list \<Rightarrow> string \<Rightarrow> string list \<times> string" where
  "tokenizeLoop caseTable [] tokens word = (tokens, word)"
| "tokenizeLoop caseTable (r # rest) tokens word =
     (if IsSpace r \<or> r = 45 then
        (if length word > 0 then tokenizeLoop caseTable rest (emitWord caseTable word tokens) []
         else tokenizeLoop caseTable rest tokens word)
      else tokenizeLoop caseTable rest tokens (word @ EncodeRune r))"

definition tokenize :: "(nat \<Rightarrow> nat) \<Rightarrow> string \<Rightarrow> string list" where
  "tokenize caseTable text =
     (case tokenizeLoop caseTable (runes text) [] [] of
        (tokens, word) \<Rightarrow> if length word > 0 then emitWord caseTable word tokens else tokens)"

section \<open>Stop words\<close>

definition stopWordKeys :: "string list" where
  "stopWordKeys =
   ['''', ''a'', ''able'', ''about'', ''across'', ''after'', ''all'', ''almost'',
     ''also'', ''am'', ''among'', ''an'', ''and'', ''any'', ''are'', ''as'', ''at'',
     ''be'', ''because'', ''been'', ''but'', ''by'', ''can'', ''cannot'', ''could'',
     ''dear'', ''did'', ''do'', ''does'', ''either'', ''else'', ''ever'', ''every'',
     ''for'', ''from'', ''get'', ''got'', ''had'', ''has'', ''have'', ''he'', ''her'',
     ''hers'', ''him'', ''his'', ''how'', ''however'', ''i'', ''if'', ''in'', ''into'',
     ''is'', ''it'', ''its'', ''just'', ''least'', ''let'', ''like'', ''likely'',
     ''may'', ''me'', ''might'', ''most'', ''must'', ''my'', ''neither'', ''no'',
     ''nor'', ''not'', ''of'', ''off'', ''often'', ''on'', ''only'', ''or'', ''other'',
     ''our'', ''own'', ''rather'', ''said'', ''say'', ''says'', ''she'', ''should'',
     ''since'', ''so'', ''some'', ''than'', ''that'', ''the'', ''their'', ''them'',
     ''then'', ''there'', ''these'', ''they'', ''this'', ''tis'', ''to'', ''too'',
     ''twas'', ''us'', ''wants'', ''was'', ''we'', ''were'', ''what'', ''when'',
     ''where'', ''which'', ''while'', ''who'', ''whom'', ''why'', ''will'', ''with'',
     ''would'', ''yet'', ''you'', ''your'']"

text \<open>\<open>stopWords[token]\<close>: every key maps to true, a missing key reads as false.\<close>

definition stopWords :: "string \<Rightarrow> bool" where
  "stopWords token = (token \<in> set stopWordKeys)"

section \<open>Stemmer\<close>








section \<open>The trie of one field\<close>

text \<open>
  A term weight is a float64. The finite ones are reals here, and the results of
  \<open>math.Sqrt\<close> are taken as exact; the others are kept apart because \<open>encoding/json\<close>
  refuses them.
\<close>

datatype float64 = Finite real | PosInf | NegInf | NaN

text \<open>
  \<open>TermFrequency\<close> and \<open>IndexItem\<close> as the package declares them. \<open>DF\<close> is an int64
  that counts the keys of an in-memory map and is an unbounded integer here. \<open>Children\<close>
  holds pointers to nodes that the parent alone owns (each is allocated by \<open>AddToken\<close> and
  stored once), so a node is a value and an update through the pointer is an update of the
  map entry.
\<close>

datatype TermFrequency = TermFrequency (TF: float64)

datatype IndexItem =
  IndexItem (Docs: "(string, TermFrequency) fmap") (DF: int) (Children: "(string, IndexItem) fmap")

text \<open>The node literal \<open>&IndexItem{Docs: make(...), Children: make(...)}\<close>.\<close>

definition emptyItem :: IndexItem where
  "emptyItem = IndexItem fmempty 0 fmempty"

record InvertedIndex =
  Root :: IndexItem

definition NewInvertedIndex :: InvertedIndex where
  "NewInvertedIndex = \<lparr>Root = emptyItem\<rparr>"

text \<open>
  The descent of \<open>AddToken\<close> from the node \<open>current\<close> along the runes of the token: one
  edge per rune under the key \<open>string(ch)\<close>, created when missing, and the posting written
  at the node where the token ends.
\<close>

fun addAt :: "string \<Rightarrow> nat list \<Rightarrow> float64 \<Rightarrow> IndexItem \<Rightarrow> IndexItem" where
  "addAt docRef [] termFreq current =
     IndexItem (fmupd docRef (TermFrequency termFreq) (Docs current))
               (if docRef |\<notin>| fmdom (Docs current) then DF current + 1 else DF current)
               (Children current)"
| "addAt docRef (ch # rest) termFreq current =
     (let key = EncodeRune ch;
          child = (case fmlookup (Children current) key of
                     None \<Rightarrow> emptyItem
                   | Some c \<Rightarrow> c)
      in IndexItem (Docs current) (DF current)
           (fmupd key (addAt docRef rest termFreq child) (Children current)))"

definition AddToken :: "string \<Rightarrow> string \<Rightarrow> float64 \<Rightarrow> InvertedIndex \<Rightarrow> InvertedIndex" where
  "AddToken docRef token termFreq ii =
     (if length token = 0 then ii
      else ii\<lparr>Root := addAt docRef (runes token) termFreq (Root ii)\<rparr>)"

text \<open>\<open>GetNode\<close>: \<open>None\<close> is the nil pointer.\<close>

fun getAt :: "nat list \<Rightarrow> IndexItem \<Rightarrow> IndexItem option" where
  "getAt [] current = Some current"
| "getAt (ch # rest) current =
     (case fmlookup (Children current) (EncodeRune ch) of
        Some child \<Rightarrow> getAt rest child
      | None \<Rightarrow> None)"

definition GetNode :: "InvertedIndex \<Rightarrow> string \<Rightarrow> IndexItem option" where
  "GetNode ii token = getAt (runes token) (Root ii)"

definition HasToken :: "InvertedIndex \<Rightarrow> string \<Rightarrow> bool" where
  "HasToken ii token = (GetNode ii token \<noteq> None)"

text \<open>\<open>GetDocs\<close> returns a nil map (\<open>None\<close>) for a missing node and a fresh map otherwise.\<close>

definition GetDocs :: "InvertedIndex \<Rightarrow> string \<Rightarrow> (string, float64) fmap option" where
  "GetDocs ii token =
     (case GetNode ii token of
        None \<Rightarrow> None
      | Some node \<Rightarrow> Some (fmmap TF (Docs node)))"

definition GetDocFrequency :: "InvertedIndex \<Rightarrow> string \<Rightarrow> int" where
  "GetDocFrequency ii token =
     (case GetNode ii token of
        None \<Rightarrow> 0
      | Some node \<Rightarrow> DF node)"

text \<open>A sequence of \<open>AddToken\<close> calls, each given as (docRef, token, termFreq).\<close>

fun AddTokens :: "(string \<times> string \<times> float64) list \<Rightarrow> InvertedIndex \<Rightarrow> InvertedIndex" where
  "AddTokens [] ii = ii"
| "AddTokens ((docRef, token, termFreq) # calls) ii =
     AddTokens calls (AddToken docRef token termFreq ii)"

section \<open>Document store\<close>

text \<open>
  A document is a \<open>map[string]interface{}\<close>. The values the package is given are strings,
  integers, booleans and nil, and \<open>Sprint\<close> is \<open>fmt.Sprintf("%v", _)\<close> on them.
  The field \<open>Docs\<close> of the store is \<open>StoreDocs\<close> here, since \<open>Docs\<close> names the postings
  of a trie node.
\<close>

datatype fieldValue = VString string | VInt int | VBool bool | VNil

type_synonym document = "(string, fieldValue) fmap"

fun digits :: "nat \<Rightarrow> string" where
  "digits n =
     (if n < 10 then [char_of (48 + n)]
      else digits (n div 10) @ [char_of (48 + n mod 10)])"

fun Sprint :: "fieldValue \<Rightarrow> string" where
  "Sprint (VString s) = s"
| "Sprint (VInt i) = (if i < 0 then CHR ''-'' # digits (nat (- i)) else digits (nat i))"
| "Sprint (VBool b) = (if b then ''true'' else ''false'')"
| "Sprint VNil = ''<nil>''"

text \<open>Reading \<open>doc[key]\<close> without the comma-ok form: a missing key gives nil.\<close>

definition docValue :: "document \<Rightarrow> string \<Rightarrow> fieldValue" where
  "docValue doc key = (case fmlookup doc key of None \<Rightarrow> VNil | Some v \<Rightarrow> v)"

record DocumentStore =
  Save :: bool
  StoreDocs :: "(string, document) fmap"
  DocInfo :: "(string, (string, int) fmap) fmap"
  Length :: int

definition NewDocumentStore :: "bool \<Rightarrow> DocumentStore" where
  "NewDocumentStore save = \<lparr>Save = save, StoreDocs = fmempty, DocInfo = fmempty, Length = 0\<rparr>"

definition DocumentStore_AddDoc :: "string \<Rightarrow> document \<Rightarrow> DocumentStore \<Rightarrow> DocumentStore" where
  "DocumentStore_AddDoc docRef doc ds =
     (let ds1 = (if docRef |\<notin>| fmdom (StoreDocs ds) then ds\<lparr>Length := Length ds + 1\<rparr> else ds)
      in if Save ds1 then ds1\<lparr>StoreDocs := fmupd docRef doc (StoreDocs ds1)\<rparr>
         else ds1\<lparr>StoreDocs := fmupd docRef fmempty (StoreDocs ds1)\<rparr>)"

definition GetDoc :: "DocumentStore \<Rightarrow> string \<Rightarrow> document option" where
  "GetDoc ds docRef = fmlookup (StoreDocs ds) docRef"

definition HasDoc :: "DocumentStore \<Rightarrow> string \<Rightarrow> bool" where
  "HasDoc ds docRef = (docRef |\<in>| fmdom (StoreDocs ds))"

definition AddFieldLength :: "string \<Rightarrow> string \<Rightarrow> int \<Rightarrow> DocumentStore \<Rightarrow> DocumentStore" where
  "AddFieldLength docRef field len ds =
     (let docInfo = (case fmlookup (DocInfo ds) docRef of None \<Rightarrow> fmempty | Some info \<Rightarrow> info)
      in ds\<lparr>DocInfo := fmupd docRef (fmupd field len docInfo) (DocInfo ds)\<rparr>)"

definition GetFieldLength :: "DocumentStore \<Rightarrow> string \<Rightarrow> string \<Rightarrow> int" where
  "GetFieldLength ds docRef field =
     (case fmlookup (DocInfo ds) docRef of
        Some docInfo \<Rightarrow> (case fmlookup docInfo field of Some len \<Rightarrow> len | None \<Rightarrow> 0)
      | None \<Rightarrow> 0)"

text \<open>A sequence of \<open>DocumentStore.AddDoc\<close> calls, each given as (docRef, doc).\<close>

fun StoreAddDocs :: "(string \<times> document) list \<Rightarrow> DocumentStore \<Rightarrow> DocumentStore" where
  "StoreAddDocs [] ds = ds"
| "StoreAddDocs ((docRef, doc) # calls) ds = StoreAddDocs calls (DocumentStore_AddDoc docRef doc ds)"

section \<open>Notions used in the statements\<close>

text \<open>A string is well-formed UTF-8 when writing its runes again gives the string back.\<close>

definition validUTF8 :: "string \<Rightarrow> bool" where
  "validUTF8 s = (concat (map EncodeRune (runes s)) = s)"

text \<open>The code points that an encoding exists for: all up to U+10FFFF but the surrogates.\<close>

definition validRune :: "nat \<Rightarrow> bool" where
  "validRune r = (r < 55296 \<or> (57344 \<le> r \<and> r \<le> 1114111))"

text \<open>The postings and the document frequency found at the end of a path, if any.\<close>

definition docsAt :: "IndexItem \<Rightarrow> nat list \<Rightarrow> (string, TermFrequency) fmap" where
  "docsAt n p = (case getAt p n of None \<Rightarrow> fmempty | Some x \<Rightarrow> Docs x)"

definition dfAt :: "IndexItem \<Rightarrow> nat list \<Rightarrow> int" where
  "dfAt n p = (case getAt p n of None \<Rightarrow> 0 | Some x \<Rightarrow> DF x)"











section \<open>Properties\<close>

subsection \<open>Decoding and encoding\<close>

lemma of_char_lt: "(of_char b :: nat) < 256"
proof -
  have "(of_char b :: nat) mod 256 = of_char b" by simp
  then show ?thesis by (metis mod_less_divisor zero_less_numeral)
qed

lemma of_char_char_of: "n < 256 \<Longrightarrow> (of_char (char_of n) :: nat) = n"
  by simp

lemma decode_encode_1:
  assumes "r \<le> 127"
  shows "DecodeRune (EncodeRune r @ rest) = (r, length (EncodeRune r))"
  using assms by (simp add: EncodeRune_def)

lemma decode_encode_2:
  assumes "127 < r" "r \<le> 2047"
  shows "DecodeRune (EncodeRune r @ rest) = (r, length (EncodeRune r))"
proof -
  have a: "192 + r div 64 < 256" "128 + r mod 64 < 256" using assms by auto
  have b: "194 \<le> 192 + r div 64" "192 + r div 64 < 224" using assms by auto
  show ?thesis using assms a b
    by (simp add: EncodeRune_def inRange_def cont_def Let_def)
qed


lemma digit: "(a::nat) div 64 * (64 * k) + a mod 64 * k = a * k"
proof -
  have "a div 64 * (64 * k) + a mod 64 * k = (a div 64 * 64 + a mod 64) * k"
    by (simp only: distrib_right mult.assoc)
  then show ?thesis by simp
qed

lemma split3: "(r::nat) div 4096 * 4096 + (r div 64) mod 64 * 64 + r mod 64 = r"
proof -
  have q: "r div 4096 = (r div 64) div 64" by (simp add: div_mult2_eq)
  have "r div 4096 * 4096 + (r div 64) mod 64 * 64 = r div 64 * 64"
    unfolding q using digit[of "r div 64" 64] by simp
  then show ?thesis by simp
qed

lemma split4: "(r::nat) div 262144 * 262144 + (r div 4096) mod 64 * 4096 + (r div 64) mod 64 * 64 + r mod 64 = r"
proof -
  have q: "r div 262144 = (r div 4096) div 64" by (simp add: div_mult2_eq)
  have "r div 262144 * 262144 + (r div 4096) mod 64 * 4096 = r div 4096 * 4096"
    unfolding q using digit[of "r div 4096" 4096] by simp
  then show ?thesis using split3[of r] by simp
qed

lemma mod64_le: "(a::nat) mod 64 \<le> 63"
  using mod_less_divisor[of 64 a] by linarith

lemma mod_from_div: "(q::nat) div 64 = k \<Longrightarrow> q mod 64 + 64 * k = q"
  using mod_mult_div_eq[of q 64] by simp

lemma decode_encode_3:
  assumes "2047 < r" "r \<le> 65535" "\<not> (55296 \<le> r \<and> r \<le> 57343)"
  shows "DecodeRune (EncodeRune r @ rest) = (r, length (EncodeRune r))"
proof -
  have a: "224 + r div 4096 < 256" "128 + (r div 64) mod 64 < 256" "128 + r mod 64 < 256"
    using assms by auto
  have b: "224 \<le> 224 + r div 4096" "224 + r div 4096 < 240" using assms by auto
  have q: "r div 4096 = (r div 64) div 64" by (simp add: div_mult2_eq)
  have q1: "32 \<le> r div 64" using assms by simp
  have c1: "32 \<le> (r div 64) mod 64" if "r div 4096 = 0"
  proof -
    have "(r div 64) mod 64 + 64 * 0 = r div 64"
      by (rule mod_from_div) (use that q in simp)
    then show ?thesis using q1(1) by simp
  qed
  have c2: "(r div 64) mod 64 \<le> 31" if "r div 4096 = 13"
  proof -
    have "(r div 64) mod 64 + 64 * 13 = r div 64"
      by (rule mod_from_div) (use that q in simp)
    moreover have "r < 55296" using that assms(3) by linarith
    then have "r div 64 < 864" by simp
    ultimately show ?thesis by linarith
  qed
  have c: "r div 4096 = 0 \<longrightarrow> 32 \<le> (r div 64) mod 64"
          "r div 4096 = 13 \<longrightarrow> (r div 64) mod 64 \<le> 31"
    using c1 c2 by blast+
  have d: "r div 4096 * 4096 + (r div 64) mod 64 * 64 + r mod 64 = r" by (rule split3)
  have m: "r mod 64 \<le> 63" "(r div 64) mod 64 \<le> 63" by (rule mod64_le)+
  have m0: "r div 4096 = 0 \<longrightarrow> r div 64 \<le> 63"
    using mod_from_div[of "r div 64" 0] q m(2) by auto
  show ?thesis using assms a b c d m m0
    by (simp add: EncodeRune_def inRange_def cont_def Let_def)
qed

lemma decode_encode_4:
  assumes "65535 < r" "r \<le> 1114111"
  shows "DecodeRune (EncodeRune r @ rest) = (r, length (EncodeRune r))"
proof -
  have a: "240 + r div 262144 < 256" "128 + (r div 4096) mod 64 < 256"
          "128 + (r div 64) mod 64 < 256" "128 + r mod 64 < 256"
    using assms by auto
  have b: "240 \<le> 240 + r div 262144" "240 + r div 262144 < 245" using assms by auto
  have q: "r div 262144 = (r div 4096) div 64" by (simp add: div_mult2_eq)
  have q1: "16 \<le> r div 4096" "r div 4096 < 272" using assms by auto
  have c1: "16 \<le> (r div 4096) mod 64" if "r div 262144 = 0"
  proof -
    have "(r div 4096) mod 64 + 64 * 0 = r div 4096"
      by (rule mod_from_div) (use that q in simp)
    then show ?thesis using q1(1) by simp
  qed
  have c2: "(r div 4096) mod 64 \<le> 15" if "r div 262144 = 4"
  proof -
    have "(r div 4096) mod 64 + 64 * 4 = r div 4096"
      by (rule mod_from_div) (use that q in simp)
    then show ?thesis using q1(2) by linarith
  qed
  have c: "r div 262144 = 0 \<longrightarrow> 16 \<le> (r div 4096) mod 64"
          "r div 262144 = 4 \<longrightarrow> (r div 4096) mod 64 \<le> 15"
    using c1 c2 by blast+
  have d: "r div 262144 * 262144 + (r div 4096) mod 64 * 4096 + (r div 64) mod 64 * 64 + r mod 64 = r"
    by (rule split4)
  have m: "r mod 64 \<le> 63" "(r div 64) mod 64 \<le> 63" "(r div 4096) mod 64 \<le> 63"
    by (rule mod64_le)+
  show ?thesis using assms a b c d m
    by (simp add: EncodeRune_def inRange_def cont_def Let_def)
qed

lemma decode_encode:
  "validRune r \<Longrightarrow> DecodeRune (EncodeRune r @ rest) = (r, length (EncodeRune r))"
  using decode_encode_1[of r rest] decode_encode_2[of r rest] decode_encode_3[of r rest]
        decode_encode_4[of r rest]
  by (cases "r \<le> 127"; cases "r \<le> 2047"; cases "r \<le> 65535") (auto simp: validRune_def)


lemma valid2:
  assumes "n0 < 224" "128 \<le> n1" "n1 \<le> 191"
  shows "validRune ((n0 - 192) * 64 + (n1 - 128))"
proof -
  have "n0 - 192 \<le> 31" using assms(1) by simp
  then have "(n0 - 192) * 64 \<le> 31 * 64" by (rule mult_le_mono1)
  moreover have "n1 - 128 \<le> 63" using assms(3) by simp
  ultimately show ?thesis by (simp add: validRune_def)
qed

lemma valid3:
  assumes "224 \<le> n0" "n0 < 240" "(if n0 = 224 then 160 else 128) \<le> n1"
    "n1 \<le> (if n0 = 237 then 159 else 191)" "128 \<le> n2" "n2 \<le> 191"
  shows "validRune ((n0 - 224) * 4096 + (n1 - 128) * 64 + (n2 - 128))"
proof -
  define a where "a = n0 - 224"
  define c1 where "c1 = n1 - 128"
  define c2 where "c2 = n2 - 128"
  have a: "a < 16" using assms(1,2) by (simp add: a_def)
  have c1: "c1 \<le> 63" "a = 13 \<longrightarrow> c1 \<le> 31"
    using assms(1,3,4) by (auto simp: a_def c1_def split: if_splits)
  have c2: "c2 \<le> 63" using assms(5,6) by (simp add: c2_def)
  have low: "c1 * 64 + c2 \<le> 4095" using c1(1) c2 by linarith
  consider "a \<le> 12" | "a = 13" | "14 \<le> a" by linarith
  then have "validRune (a * 4096 + c1 * 64 + c2)"
  proof cases
    case 1
    then have "a * 4096 \<le> 12 * 4096" by simp
    then show ?thesis using low by (simp add: validRune_def)
  next
    case 2
    then show ?thesis using c1 c2 by (simp add: validRune_def)
  next
    case 3
    then have "14 * 4096 \<le> a * 4096" "a * 4096 \<le> 15 * 4096" using a by simp_all
    then show ?thesis using low by (simp add: validRune_def)
  qed
  then show ?thesis by (simp add: a_def c1_def c2_def)
qed

lemma valid4:
  assumes "240 \<le> n0" "n0 < 245" "(if n0 = 240 then 144 else 128) \<le> n1"
    "n1 \<le> (if n0 = 244 then 143 else 191)" "128 \<le> n2" "n2 \<le> 191" "128 \<le> n3" "n3 \<le> 191"
  shows "validRune ((n0 - 240) * 262144 + (n1 - 128) * 4096 + (n2 - 128) * 64 + (n3 - 128))"
proof -
  define a where "a = n0 - 240"
  define c1 where "c1 = n1 - 128"
  define c2 where "c2 = n2 - 128"
  define c3 where "c3 = n3 - 128"
  have a: "a < 5" using assms(1,2) by (simp add: a_def)
  have c1: "c1 \<le> 63" "a = 0 \<longrightarrow> 16 \<le> c1" "a = 4 \<longrightarrow> c1 \<le> 15"
    using assms(1,3,4) by (auto simp: a_def c1_def split: if_splits)
  have c2: "c2 \<le> 63" using assms(5,6) by (simp add: c2_def)
  have c3: "c3 \<le> 63" using assms(7,8) by (simp add: c3_def)
  have low: "c2 * 64 + c3 \<le> 4095" using c2 c3 by linarith
  consider "a = 0" | "1 \<le> a \<and> a \<le> 3" | "a = 4" using a by linarith
  then have "validRune (a * 262144 + c1 * 4096 + c2 * 64 + c3)"
  proof cases
    case 1
    then have "16 * 4096 \<le> c1 * 4096" "c1 * 4096 \<le> 63 * 4096" using c1 by simp_all
    then show ?thesis using 1 low by (simp add: validRune_def)
  next
    case 2
    then have "1 * 262144 \<le> a * 262144" "a * 262144 \<le> 3 * 262144" by simp_all
    moreover have "c1 * 4096 \<le> 63 * 4096" using c1(1) by simp
    ultimately show ?thesis using low by (simp add: validRune_def)
  next
    case 3
    then have "c1 * 4096 \<le> 15 * 4096" using c1 by simp
    then show ?thesis using 3 low by (simp add: validRune_def)
  qed
  then show ?thesis by (simp add: a_def c1_def c2_def c3_def)
qed

lemma validRune_RuneError [simp]: "validRune RuneError"
  by (simp add: validRune_def RuneError_def)

lemma validRune_ascii: "n < 128 \<Longrightarrow> validRune n"
  by (simp add: validRune_def)

lemma DecodeRune_valid: "validRune (fst (DecodeRune s))"
proof (cases s)
  case Nil
  then show ?thesis by simp
next
  case (Cons b0 rest)
  define n0 where "n0 = (of_char b0 :: nat)"
  consider "n0 < 128" | "128 \<le> n0 \<and> n0 < 194" | "194 \<le> n0 \<and> n0 < 224"
    | "224 \<le> n0 \<and> n0 < 240" | "240 \<le> n0 \<and> n0 < 245" | "245 \<le> n0" by linarith
  then show ?thesis
  proof cases
    case 1
    then show ?thesis using Cons by (simp add: n0_def validRune_ascii)
  next
    case 2
    then show ?thesis using Cons by (simp add: n0_def)
  next
    case 3
    then show ?thesis using Cons valid2[of n0]
      by (cases rest) (simp_all add: n0_def Let_def inRange_def cont_def)
  next
    case 4
    show ?thesis
    proof (cases rest)
      case Nil
      then show ?thesis using 4 Cons by (simp add: n0_def Let_def)
    next
      case r1: (Cons b1 rest1)
      show ?thesis
      proof (cases rest1)
        case Nil
        then show ?thesis using 4 Cons r1 by (simp add: n0_def Let_def)
      next
        case r2: (Cons b2 rest2)
        show ?thesis using 4 Cons r1 r2 valid3[of n0 "of_char b1" "of_char b2"]
          by (simp add: n0_def Let_def inRange_def cont_def)
      qed
    qed
  next
    case 5
    show ?thesis
    proof (cases rest)
      case Nil
      then show ?thesis using 5 Cons by (simp add: n0_def Let_def)
    next
      case r1: (Cons b1 rest1)
      show ?thesis
      proof (cases rest1)
        case Nil
        then show ?thesis using 5 Cons r1 by (simp add: n0_def Let_def)
      next
        case r2: (Cons b2 rest2)
        show ?thesis
        proof (cases rest2)
          case Nil
          then show ?thesis using 5 Cons r1 r2 by (simp add: n0_def Let_def)
        next
          case r3: (Cons b3 rest3)
          show ?thesis
            using 5 Cons r1 r2 r3 valid4[of n0 "of_char b1" "of_char b2" "of_char b3"]
            by (simp add: n0_def Let_def inRange_def cont_def)
        qed
      qed
    qed
  next
    case 6
    then show ?thesis using Cons by (simp add: n0_def)
  qed
qed

lemma DecodeRune_size: "s \<noteq> [] \<Longrightarrow> 1 \<le> snd (DecodeRune s) \<and> snd (DecodeRune s) \<le> length s"
  by (cases s) (auto simp: Let_def split: list.splits)

lemma runes_valid: "r \<in> set (runes s) \<Longrightarrow> validRune r"
proof (induction s arbitrary: r rule: runes.induct)
  case 1
  then show ?case by simp
next
  case (2 b0 rest)
  obtain x n where d: "DecodeRune (b0 # rest) = (x, n)" by (cases "DecodeRune (b0 # rest)")
  have "validRune x" using DecodeRune_valid[of "b0 # rest"] d by simp
  moreover have "r = x \<or> r \<in> set (runes (drop (n - 1) rest))" using "2.prems" d by simp
  ultimately show ?case using "2.IH"[OF d[symmetric]] by auto
qed

lemma EncodeRune_not_Nil [simp]: "EncodeRune r \<noteq> []"
  by (simp add: EncodeRune_def)

lemma EncodeRune_inj: "validRune a \<Longrightarrow> validRune b \<Longrightarrow> EncodeRune a = EncodeRune b \<Longrightarrow> a = b"
  using decode_encode[of a "[]"] decode_encode[of b "[]"] by simp

lemma runes_Nil_iff [simp]: "(runes s = []) = (s = [])"
  by (cases s) (auto split: prod.splits)

lemma Nil_eq_runes [simp]: "([] = runes s) = (s = [])"
  by (cases s) (auto split: prod.splits)

lemma runes_encode_append:
  "\<forall>r \<in> set rs. validRune r \<Longrightarrow> runes (concat (map EncodeRune rs) @ q) = rs @ runes q"
proof (induction rs)
  case Nil
  then show ?case by simp
next
  case (Cons r rs)
  obtain b0 bs where e: "EncodeRune r = b0 # bs" by (cases "EncodeRune r") simp_all
  have d: "DecodeRune (b0 # bs @ concat (map EncodeRune rs) @ q) = (r, Suc (length bs))"
    using decode_encode[of r "concat (map EncodeRune rs) @ q"] Cons.prems e by simp
  have "runes (concat (map EncodeRune (r # rs)) @ q) =
        r # runes (concat (map EncodeRune rs) @ q)"
    using e d by simp
  then show ?case using Cons by simp
qed

lemma runes_encode: "\<forall>r \<in> set rs. validRune r \<Longrightarrow> runes (concat (map EncodeRune rs)) = rs"
  using runes_encode_append[of rs "[]"] by simp

lemma map_EncodeRune_eq:
  "\<forall>r \<in> set p. validRune r \<Longrightarrow> \<forall>r \<in> set t. validRune r \<Longrightarrow>
   (map EncodeRune p = map EncodeRune t) = (p = t)"
proof (induction p arbitrary: t)
  case Nil
  then show ?case by auto
next
  case (Cons a p)
  then show ?case by (cases t) (auto dest: EncodeRune_inj)
qed

lemma map_EncodeRune_prefix:
  "\<forall>r \<in> set p. validRune r \<Longrightarrow> \<forall>r \<in> set t. validRune r \<Longrightarrow>
   prefix (map EncodeRune p) (map EncodeRune t) = prefix p t"
proof (induction p arbitrary: t)
  case Nil
  then show ?case by simp
next
  case (Cons a p)
  then show ?case by (cases t) (auto dest: EncodeRune_inj)
qed

lemma keys_eq_runes:
  "(map EncodeRune (runes p) = map EncodeRune (runes t)) = (runes p = runes t)"
  by (rule map_EncodeRune_eq) (auto intro: runes_valid)

lemma keys_prefix_runes:
  "prefix (map EncodeRune (runes p)) (map EncodeRune (runes t)) = prefix (runes p) (runes t)"
  by (rule map_EncodeRune_prefix) (auto intro: runes_valid)

lemma valid_runes_eq: "validUTF8 p \<Longrightarrow> validUTF8 t \<Longrightarrow> (runes p = runes t) = (p = t)"
  by (metis validUTF8_def)

lemma valid_runes_prefix:
  assumes "validUTF8 p" "validUTF8 t"
  shows "prefix (runes p) (runes t) = prefix p t"
proof
  assume "prefix (runes p) (runes t)"
  then obtain rs where "runes t = runes p @ rs" by (auto simp: prefix_def)
  then have "concat (map EncodeRune (runes t)) =
             concat (map EncodeRune (runes p)) @ concat (map EncodeRune rs)" by simp
  then have "t = p @ concat (map EncodeRune rs)" using assms by (simp add: validUTF8_def)
  then show "prefix p t" by simp
next
  assume "prefix p t"
  then obtain q where q: "t = p @ q" by (auto simp: prefix_def)
  have "runes (concat (map EncodeRune (runes p)) @ q) = runes p @ runes q"
    by (rule runes_encode_append) (auto intro: runes_valid)
  then have "runes t = runes p @ runes q" using assms(1) q by (simp add: validUTF8_def)
  then show "prefix (runes p) (runes t)" by simp
qed


text \<open>On a string of ASCII bytes every byte is a rune of its own.\<close>

lemma runes_ascii: "list_all (\<lambda>b. (of_char b :: nat) < 128) s \<Longrightarrow> runes s = map of_char s"
  by (induction s) simp_all

lemma EncodeRune_ascii: "(of_char b :: nat) < 128 \<Longrightarrow> EncodeRune (of_char b) = [b]"
  by (simp add: EncodeRune_def)

lemma concat_EncodeRune_ascii:
  "list_all (\<lambda>b. (of_char b :: nat) < 128) s \<Longrightarrow> concat (map (\<lambda>b. EncodeRune (of_char b)) s) = s"
  by (induction s) (simp_all add: EncodeRune_ascii)

lemma ascii_validUTF8: "list_all (\<lambda>b. (of_char b :: nat) < 128) s \<Longrightarrow> validUTF8 s"
  by (simp add: validUTF8_def runes_ascii concat_EncodeRune_ascii comp_def)

subsection \<open>Paths in the trie\<close>

lemma getAt_emptyItem: "getAt p emptyItem = (if p = [] then Some emptyItem else None)"
  by (cases p) (auto simp: emptyItem_def)

lemma docsAt_emptyItem [simp]: "docsAt emptyItem p = fmempty"
  by (cases p) (auto simp: docsAt_def emptyItem_def)

lemma dfAt_emptyItem [simp]: "dfAt emptyItem p = 0"
  by (cases p) (auto simp: dfAt_def emptyItem_def)

lemma docsAt_Cons:
  "docsAt n (c # p) =
     (case fmlookup (Children n) (EncodeRune c) of None \<Rightarrow> fmempty | Some x \<Rightarrow> docsAt x p)"
  by (simp add: docsAt_def split: option.splits)

lemma dfAt_Cons:
  "dfAt n (c # p) = (case fmlookup (Children n) (EncodeRune c) of None \<Rightarrow> 0 | Some x \<Rightarrow> dfAt x p)"
  by (simp add: dfAt_def split: option.splits)

lemma has_addAt:
  "(getAt p (addAt r t w n) \<noteq> None) =
     (getAt p n \<noteq> None \<or> prefix (map EncodeRune p) (map EncodeRune t))"
proof (induction t arbitrary: n p)
  case Nil
  then show ?case by (cases p) auto
next
  case (Cons c cs)
  show ?case
  proof (cases p)
    case Nil
    then show ?thesis by simp
  next
    case (Cons d ds)
    show ?thesis
    proof (cases "EncodeRune d = EncodeRune c")
      case True
      then show ?thesis using Cons Cons.IH[of ds]
        by (auto simp: Let_def getAt_emptyItem split: option.splits)
    next
      case False
      then show ?thesis using Cons by (auto simp: Let_def split: option.splits)
    qed
  qed
qed

lemma docsAt_addAt:
  "docsAt (addAt r t w n) p =
     (if map EncodeRune p = map EncodeRune t then fmupd r (TermFrequency w) (docsAt n p)
      else docsAt n p)"
proof (induction t arbitrary: n p)
  case Nil
  then show ?case by (cases p) (auto simp: docsAt_def)
next
  case (Cons c cs)
  show ?case
  proof (cases p)
    case Nil
    then show ?thesis by (simp add: docsAt_def Let_def)
  next
    case (Cons d ds)
    let ?ch = "case fmlookup (Children n) (EncodeRune c) of None \<Rightarrow> emptyItem | Some x \<Rightarrow> x"
    show ?thesis
    proof (cases "EncodeRune d = EncodeRune c")
      case True
      have "docsAt (addAt r (c # cs) w n) (d # ds) = docsAt (addAt r cs w ?ch) ds"
        using True by (simp add: docsAt_def Let_def)
      also have "\<dots> = (if map EncodeRune ds = map EncodeRune cs
                        then fmupd r (TermFrequency w) (docsAt ?ch ds) else docsAt ?ch ds)"
        by (rule Cons.IH)
      also have "docsAt ?ch ds = docsAt n (d # ds)"
        using True by (simp add: docsAt_Cons split: option.splits)
      finally show ?thesis using True Cons by (auto simp del: addAt.simps)
    next
      case False
      then show ?thesis using Cons by (auto simp: docsAt_def Let_def split: option.splits)
    qed
  qed
qed

lemma dfAt_addAt:
  "dfAt (addAt r t w n) p =
     (if map EncodeRune p = map EncodeRune t \<and> r |\<notin>| fmdom (docsAt n p) then dfAt n p + 1
      else dfAt n p)"
proof (induction t arbitrary: n p)
  case Nil
  then show ?case by (cases p) (auto simp: dfAt_def docsAt_def)
next
  case (Cons c cs)
  show ?case
  proof (cases p)
    case Nil
    then show ?thesis by (simp add: dfAt_def Let_def)
  next
    case (Cons d ds)
    let ?ch = "case fmlookup (Children n) (EncodeRune c) of None \<Rightarrow> emptyItem | Some x \<Rightarrow> x"
    show ?thesis
    proof (cases "EncodeRune d = EncodeRune c")
      case True
      have "dfAt (addAt r (c # cs) w n) (d # ds) = dfAt (addAt r cs w ?ch) ds"
        using True by (simp add: dfAt_def Let_def)
      also have "\<dots> = (if map EncodeRune ds = map EncodeRune cs \<and> r |\<notin>| fmdom (docsAt ?ch ds)
                        then dfAt ?ch ds + 1 else dfAt ?ch ds)"
        by (rule Cons.IH)
      also have "docsAt ?ch ds = docsAt n (d # ds)"
        using True by (simp add: docsAt_Cons split: option.splits)
      also have "dfAt ?ch ds = dfAt n (d # ds)"
        using True by (simp add: dfAt_Cons split: option.splits)
      finally show ?thesis using True Cons by (auto simp del: addAt.simps)
    next
      case False
      then show ?thesis using Cons by (auto simp: dfAt_def Let_def split: option.splits)
    qed
  qed
qed



lemma fcard_finsert_int:
  "int (fcard (finsert r S)) = (if r |\<notin>| S then int (fcard S) + 1 else int (fcard S))"
  by (simp add: fcard_finsert_if)







text \<open>The effect of one call on the node that a string leads to.\<close>

lemma docsAt_AddToken:
  "docsAt (Root (AddToken r t w ii)) (runes p) =
     (if runes p = runes t \<and> t \<noteq> [] then fmupd r (TermFrequency w) (docsAt (Root ii) (runes p))
      else docsAt (Root ii) (runes p))"
  by (auto simp: AddToken_def docsAt_addAt keys_eq_runes)

lemma dfAt_AddToken:
  "dfAt (Root (AddToken r t w ii)) (runes p) =
     (if runes p = runes t \<and> t \<noteq> [] \<and> r |\<notin>| fmdom (docsAt (Root ii) (runes p))
      then dfAt (Root ii) (runes p) + 1 else dfAt (Root ii) (runes p))"
  by (auto simp: AddToken_def dfAt_addAt keys_eq_runes)

lemma HasToken_AddToken:
  "HasToken (AddToken r t w ii) p = (HasToken ii p \<or> prefix (runes p) (runes t))"
proof (cases "t = []")
  case True
  then show ?thesis by (auto simp: AddToken_def HasToken_def GetNode_def)
next
  case False
  then show ?thesis using has_addAt[of "runes p" r "runes t" w "Root ii"]
    by (simp add: AddToken_def HasToken_def GetNode_def keys_prefix_runes)
qed

lemma HasToken_AddTokens:
  "HasToken (AddTokens calls ii) p =
     (HasToken ii p \<or> (\<exists>c \<in> set calls. prefix (runes p) (runes (fst (snd c)))))"
  by (induction calls ii rule: AddTokens.induct) (auto simp: HasToken_AddToken)

lemma docsAt_AddTokens_other:
  "\<forall>c \<in> set calls. runes (fst (snd c)) \<noteq> runes p \<Longrightarrow>
   docsAt (Root (AddTokens calls ii)) (runes p) = docsAt (Root ii) (runes p)"
  by (induction calls ii rule: AddTokens.induct) (auto simp: docsAt_AddToken)

lemma dfAt_AddTokens_other:
  "\<forall>c \<in> set calls. runes (fst (snd c)) \<noteq> runes p \<Longrightarrow>
   dfAt (Root (AddTokens calls ii)) (runes p) = dfAt (Root ii) (runes p)"
  by (induction calls ii rule: AddTokens.induct) (auto simp: dfAt_AddToken)

lemma GetDocFrequency_dfAt: "GetDocFrequency ii p = dfAt (Root ii) (runes p)"
  by (simp add: GetDocFrequency_def GetNode_def dfAt_def)

lemma GetDocs_docsAt:
  "HasToken ii p \<Longrightarrow> GetDocs ii p = Some (fmmap TF (docsAt (Root ii) (runes p)))"
  by (auto simp: GetDocs_def HasToken_def GetNode_def docsAt_def)

lemma HasToken_New: "HasToken NewInvertedIndex p = (p = [])"
  by (cases "runes p") (auto simp: HasToken_def GetNode_def NewInvertedIndex_def emptyItem_def)


lemma fcard_fset_of_list: "fcard (fset_of_list xs) = length (remdups xs)"
  by (simp add: fcard.rep_eq fset_of_list.rep_eq length_remdups_card_conv)



text \<open>
  C10, with prefixes taken on what \<open>range\<close> reads. In an index built from the empty one by
  any sequence of \<open>AddToken\<close> calls, \<open>HasToken p\<close> holds exactly when \<open>p\<close> is empty or the
  runes of \<open>p\<close> are a prefix of the runes of the token of some call; it holds for the empty
  string on the empty index; and when the runes of \<open>p\<close> are a strict prefix of those of a
  token and no call carried a token with the runes of \<open>p\<close>, the document frequency of \<open>p\<close>
  is 0 and \<open>GetDocs\<close> returns an empty (non-nil) map. When \<open>p\<close> and the tokens of all calls
  are well-formed UTF-8, the same holds with prefixes and equality of the strings
  themselves.
\<close>

theorem prefix_lookup:
  "(HasToken (AddTokens calls NewInvertedIndex) p \<longleftrightarrow>
      p = [] \<or> (\<exists>c \<in> set calls. prefix (runes p) (runes (fst (snd c))))) \<and>
   HasToken NewInvertedIndex [] \<and>
   ((\<exists>c \<in> set calls. strict_prefix (runes p) (runes (fst (snd c)))) \<and>
    (\<forall>c \<in> set calls. runes (fst (snd c)) \<noteq> runes p) \<longrightarrow>
      GetDocFrequency (AddTokens calls NewInvertedIndex) p = 0 \<and>
      GetDocs (AddTokens calls NewInvertedIndex) p = Some fmempty) \<and>
   (validUTF8 p \<and> (\<forall>c \<in> set calls. validUTF8 (fst (snd c))) \<longrightarrow>
      (HasToken (AddTokens calls NewInvertedIndex) p \<longleftrightarrow>
         p = [] \<or> (\<exists>c \<in> set calls. prefix p (fst (snd c)))) \<and>
      ((\<exists>c \<in> set calls. strict_prefix p (fst (snd c))) \<and> (\<forall>c \<in> set calls. fst (snd c) \<noteq> p) \<longrightarrow>
         GetDocFrequency (AddTokens calls NewInvertedIndex) p = 0 \<and>
         GetDocs (AddTokens calls NewInvertedIndex) p = Some fmempty))"
proof -
  have has: "HasToken (AddTokens calls NewInvertedIndex) p \<longleftrightarrow>
      p = [] \<or> (\<exists>c \<in> set calls. prefix (runes p) (runes (fst (snd c))))"
    by (simp add: HasToken_AddTokens HasToken_New)
  have new: "HasToken NewInvertedIndex []" by (simp add: HasToken_New)
  have empty: "GetDocFrequency (AddTokens calls NewInvertedIndex) p = 0 \<and>
      GetDocs (AddTokens calls NewInvertedIndex) p = Some fmempty"
    if a: "\<exists>c \<in> set calls. strict_prefix (runes p) (runes (fst (snd c)))"
      and b: "\<forall>c \<in> set calls. runes (fst (snd c)) \<noteq> runes p"
  proof -
    from a have h: "HasToken (AddTokens calls NewInvertedIndex) p"
      by (auto simp: HasToken_AddTokens strict_prefix_def)
    from b have d: "docsAt (Root (AddTokens calls NewInvertedIndex)) (runes p) = fmempty"
      by (simp add: docsAt_AddTokens_other NewInvertedIndex_def)
    from b have "GetDocFrequency (AddTokens calls NewInvertedIndex) p = 0"
      by (simp add: GetDocFrequency_dfAt dfAt_AddTokens_other NewInvertedIndex_def)
    moreover from h d have "GetDocs (AddTokens calls NewInvertedIndex) p = Some fmempty"
      by (simp add: GetDocs_docsAt)
    ultimately show ?thesis by simp
  qed
  have valid: "(HasToken (AddTokens calls NewInvertedIndex) p \<longleftrightarrow>
         p = [] \<or> (\<exists>c \<in> set calls. prefix p (fst (snd c)))) \<and>
      ((\<exists>c \<in> set calls. strict_prefix p (fst (snd c))) \<and> (\<forall>c \<in> set calls. fst (snd c) \<noteq> p) \<longrightarrow>
         GetDocFrequency (AddTokens calls NewInvertedIndex) p = 0 \<and>
         GetDocs (AddTokens calls NewInvertedIndex) p = Some fmempty)"
    if v: "validUTF8 p \<and> (\<forall>c \<in> set calls. validUTF8 (fst (snd c)))"
  proof -
    have pre: "prefix (runes p) (runes (fst (snd c))) = prefix p (fst (snd c))"
      if "c \<in> set calls" for c
      using v that by (simp add: valid_runes_prefix)
    have eq: "(runes (fst (snd c)) = runes p) = (fst (snd c) = p)" if "c \<in> set calls" for c
      using v that by (simp add: valid_runes_eq)
    have spre: "strict_prefix (runes p) (runes (fst (snd c))) = strict_prefix p (fst (snd c))"
      if "c \<in> set calls" for c
      using pre[OF that] eq[OF that] by (auto simp: strict_prefix_def)
    show ?thesis using has empty pre eq spre by auto
  qed
  show ?thesis using has new empty valid by blast
qed

text \<open>C10 at the index holding the token \<open>cat\<close>, for the prefixes \<open>ca\<close> and \<open>co\<close>.\<close>

theorem prefix_lookup_witness:
  "HasToken (AddTokens [(''d1'', ''cat'', Finite 1)] NewInvertedIndex) ''ca'' \<and>
   \<not> HasToken (AddTokens [(''d1'', ''cat'', Finite 1)] NewInvertedIndex) ''co'' \<and>
   GetDocFrequency (AddTokens [(''d1'', ''cat'', Finite 1)] NewInvertedIndex) ''ca'' = 0 \<and>
   GetDocs (AddTokens [(''d1'', ''cat'', Finite 1)] NewInvertedIndex) ''ca'' = Some fmempty"
  using prefix_lookup [of "[(''d1'', ''cat'', Finite 1)]" "''ca''"]
        prefix_lookup [of "[(''d1'', ''cat'', Finite 1)]" "''co''"]
  by (simp add: ascii_validUTF8)

text \<open>
  C10 as stated, with prefixes of the strings themselves, fails on strings that are not
  well-formed UTF-8. After a call with the token \<open>\xff\<close>, \<open>HasToken\<close> holds for \<open>\xfe\<close>,
  which is not a prefix of it: both bytes are read as U+FFFD. After a call with the token
  \<open>\xc3\xa9\<close>, \<open>HasToken\<close> does not hold for its prefix \<open>\xc3\<close>.
\<close>

theorem prefix_lookup_counterexample:
  "HasToken (AddTokens [(''d1'', [CHR 0xFF], Finite 1)] NewInvertedIndex) [CHR 0xFE] \<and>
   [CHR 0xFE] \<noteq> [] \<and> \<not> prefix [CHR 0xFE] [CHR 0xFF] \<and>
   \<not> HasToken (AddTokens [(''d1'', [CHR 0xC3, CHR 0xA9], Finite 1)] NewInvertedIndex) [CHR 0xC3] \<and>
   prefix [CHR 0xC3] [CHR 0xC3, CHR 0xA9]"
  by (simp add: HasToken_AddToken HasToken_New inRange_def cont_def RuneError_def)

subsection \<open>Document frequency\<close>






subsection \<open>Document store\<close>

lemma Save_AddDoc [simp]: "Save (DocumentStore_AddDoc r d ds) = Save ds"
  by (simp add: DocumentStore_AddDoc_def Let_def)

lemma Save_StoreAddDocs [simp]: "Save (StoreAddDocs calls ds) = Save ds"
  by (induction calls ds rule: StoreAddDocs.induct) simp_all

lemma fmdom_AddDoc [simp]:
  "fmdom (StoreDocs (DocumentStore_AddDoc r d ds)) = finsert r (fmdom (StoreDocs ds))"
  by (simp add: DocumentStore_AddDoc_def Let_def)

lemma Length_AddDoc:
  "Length (DocumentStore_AddDoc r d ds) = (if HasDoc ds r then Length ds else Length ds + 1)"
  by (simp add: DocumentStore_AddDoc_def HasDoc_def Let_def)

lemma GetDoc_AddDoc:
  "GetDoc (DocumentStore_AddDoc r d ds) r' =
     (if r' = r then Some (if Save ds then d else fmempty) else GetDoc ds r')"
  by (simp add: DocumentStore_AddDoc_def GetDoc_def Let_def)

lemma Length_inv_AddDoc:
  "Length ds = int (fcard (fmdom (StoreDocs ds))) \<Longrightarrow>
   Length (DocumentStore_AddDoc r d ds) = int (fcard (fmdom (StoreDocs (DocumentStore_AddDoc r d ds))))"
  by (simp add: Length_AddDoc HasDoc_def fcard_finsert_int)

lemma Length_inv_StoreAddDocs:
  "Length ds = int (fcard (fmdom (StoreDocs ds))) \<Longrightarrow>
   Length (StoreAddDocs calls ds) = int (fcard (fmdom (StoreDocs (StoreAddDocs calls ds))))"
proof (induction calls ds rule: StoreAddDocs.induct)
  case (1 ds)
  then show ?case by simp
next
  case (2 docRef doc calls ds)
  from "2.prems" have "Length (DocumentStore_AddDoc docRef doc ds) =
      int (fcard (fmdom (StoreDocs (DocumentStore_AddDoc docRef doc ds))))"
    by (rule Length_inv_AddDoc)
  then show ?case using "2.IH" by simp
qed

lemma fmdom_StoreAddDocs:
  "fmdom (StoreDocs (StoreAddDocs calls ds)) = fmdom (StoreDocs ds) |\<union>| fset_of_list (map fst calls)"
  by (induction calls ds rule: StoreAddDocs.induct) auto

lemma Length_StoreAddDocs_New:
  "Length (StoreAddDocs calls (NewDocumentStore save)) = int (length (remdups (map fst calls)))"
proof -
  have "Length (NewDocumentStore save) = int (fcard (fmdom (StoreDocs (NewDocumentStore save))))"
    by (simp add: NewDocumentStore_def)
  then have "Length (StoreAddDocs calls (NewDocumentStore save)) =
      int (fcard (fmdom (StoreDocs (StoreAddDocs calls (NewDocumentStore save)))))"
    by (rule Length_inv_StoreAddDocs)
  also have "fmdom (StoreDocs (StoreAddDocs calls (NewDocumentStore save))) = fset_of_list (map fst calls)"
    by (simp add: fmdom_StoreAddDocs NewDocumentStore_def)
  finally show ?thesis by (simp only: fcard_fset_of_list)
qed

text \<open>
  C9. \<open>DocumentStore.AddDoc\<close> stores the document under its reference when \<open>Save\<close> is set
  and an empty map otherwise, whatever was stored there before, and leaves the other
  entries alone; it raises \<open>Length\<close> by one when the reference is new and not at all when
  it is present. After any sequence of calls on a new store, \<open>Length\<close> is the number of
  distinct references among the calls.
\<close>

theorem store_add_doc:
  "GetDoc (DocumentStore_AddDoc docRef doc ds) r =
     (if r = docRef then Some (if Save ds then doc else fmempty) else GetDoc ds r) \<and>
   Length (DocumentStore_AddDoc docRef doc ds) =
     (if HasDoc ds docRef then Length ds else Length ds + 1) \<and>
   HasDoc (DocumentStore_AddDoc docRef doc ds) docRef \<and>
   Length (StoreAddDocs calls (NewDocumentStore save)) = int (length (remdups (map fst calls))) \<and>
   Length (StoreAddDocs calls (NewDocumentStore save)) =
     int (fcard (fmdom (StoreDocs (StoreAddDocs calls (NewDocumentStore save)))))"
proof (intro conjI)
  show "GetDoc (DocumentStore_AddDoc docRef doc ds) r =
     (if r = docRef then Some (if Save ds then doc else fmempty) else GetDoc ds r)"
    by (rule GetDoc_AddDoc)
  show "Length (DocumentStore_AddDoc docRef doc ds) =
     (if HasDoc ds docRef then Length ds else Length ds + 1)"
    by (rule Length_AddDoc)
  show "HasDoc (DocumentStore_AddDoc docRef doc ds) docRef"
    by (simp add: HasDoc_def)
  show "Length (StoreAddDocs calls (NewDocumentStore save)) = int (length (remdups (map fst calls)))"
    by (rule Length_StoreAddDocs_New)
  show "Length (StoreAddDocs calls (NewDocumentStore save)) =
     int (fcard (fmdom (StoreDocs (StoreAddDocs calls (NewDocumentStore save)))))"
    by (rule Length_inv_StoreAddDocs) (simp add: NewDocumentStore_def)
qed

text \<open>
  C9 at a store that saves documents: the reference \<open>a\<close> is added, then \<open>b\<close>, then \<open>a\<close>
  again with another document.
\<close>

theorem store_add_doc_witness:
  "Length (StoreAddDocs [(''a'', fmupd ''t'' (VString ''x'') fmempty), (''b'', fmempty),
                         (''a'', fmupd ''t'' (VString ''y'') fmempty)] (NewDocumentStore True)) = 2 \<and>
   GetDoc (DocumentStore_AddDoc ''a'' (fmupd ''t'' (VString ''y'') fmempty)
             (StoreAddDocs [(''a'', fmupd ''t'' (VString ''x'') fmempty), (''b'', fmempty)]
                (NewDocumentStore True))) ''a''
     = Some (fmupd ''t'' (VString ''y'') fmempty) \<and>
   GetDoc (DocumentStore_AddDoc ''a'' (fmupd ''t'' (VString ''y'') fmempty)
             (NewDocumentStore False)) ''a'' = Some fmempty"
  using store_add_doc [of "''a''" "fmupd ''t'' (VString ''y'') fmempty"
          "StoreAddDocs [(''a'', fmupd ''t'' (VString ''x'') fmempty), (''b'', fmempty)]
                (NewDocumentStore True)" "''a''"
          "[(''a'', fmupd ''t'' (VString ''x'') fmempty), (''b'', fmempty),
                         (''a'', fmupd ''t'' (VString ''y'') fmempty)]" True]
        store_add_doc [of "''a''" "fmupd ''t'' (VString ''y'') fmempty" "NewDocumentStore False" "''a''" "[]" True]
  by (simp add: NewDocumentStore_def)

subsection \<open>Stemmer\<close>
















end
